theory Spec2Isabelle
  imports Complex_Main "HOL-Library.Word"
begin

section \<open>Plant classifier and serial protocol: a shallow embedding\<close>

text \<open>
  The two source files are \<^verbatim>\<open>predict_plant_tflite.py\<close> (a command-line classifier with
  temperature scaling, preferred-class boost and a top-5 listing) and
  \<^verbatim>\<open>Raspberry Pi/plant_bot.py\<close> (a chat bot with a top-3 classifier and two serial
  commands).

  Modelling decisions.
  \<^item> Probabilities are \<^typ>\<open>real\<close>: the arithmetic of the source is read as exact
    arithmetic, so rounding and overflow of floating point are outside the model.
    Where numpy would produce a NaN or an infinity (a division by zero, the logarithm
    of a negative number) the model returns the error \<open>NonFinite\<close>.
  \<^item> Labels are \<^typ>\<open>string\<close>; lower-casing is the ASCII one.
  \<^item> Pixel values and network weights are not modelled: the output vector of the
    forward pass is a field of the model.
  \<^item> \<^verbatim>\<open>np.argsort\<close> with its default kind is an introsort: a vector of at most 17
    entries is sorted by insertion, which the model writes out; on a longer vector the
    order it leaves equal entries in is not the order of their indices, and the model
    takes that sort as a parameter.
\<close>

subsection \<open>Errors\<close>

datatype error =
    UnsupportedDtype    \<comment> \<open>\<^verbatim>\<open>raise ValueError(f"Unsupported input dtype: ...")\<close>\<close>
  | SetTensorError      \<comment> \<open>ValueError of \<^verbatim>\<open>interpreter.set_tensor\<close>: dtype or shape mismatch\<close>
  | IndexError          \<comment> \<open>an index beyond the end of an array or a list\<close>
  | NonFinite           \<comment> \<open>the vector holds a NaN or an infinity\<close>
  | EmptySequence       \<comment> \<open>ValueError of \<^verbatim>\<open>np.argmax\<close> on an empty array\<close>
  | UnicodeDecodeError  \<comment> \<open>raised by \<^verbatim>\<open>bytes.decode\<close> under the error handler \<^verbatim>\<open>strict\<close>\<close>

subsection \<open>Confidence post-processing (predict\_plant\_tflite.py, lines 68--82)\<close>

definition eps :: real where
  "eps = 1 / 10 ^ 9"

text \<open>\<^verbatim>\<open>v / np.sum(v)\<close>: dividing a non-empty vector by zero leaves no finite entry.\<close>

definition divide_by :: "real list \<Rightarrow> real \<Rightarrow> error + real list" where
  "divide_by v s = (if v \<noteq> [] \<and> s = 0 then Inl NonFinite else Inr (map (\<lambda>x. x / s) v))"

text \<open>
  \<^verbatim>\<open>logits = np.log(output + 1e-9); exp_logits = np.exp(logits / temp);
  output = exp_logits / np.sum(exp_logits)\<close>.
  The logarithm of a negative number is NaN, the logarithm of zero is minus infinity
  (whose exponential after division by a positive temperature is zero, by a negative one
  infinity), and a division by the temperature zero gives infinities or NaN.
\<close>

definition temperature_scale :: "real \<Rightarrow> real list \<Rightarrow> error + real list" where
  "temperature_scale temp output =
     (if output \<noteq> [] \<and>
         (temp = 0 \<or> (\<exists>x \<in> set output. x + eps < 0)
                   \<or> (temp < 0 \<and> (\<exists>x \<in> set output. x + eps = 0)))
      then Inl NonFinite
      else let exp_logits =
                 map (\<lambda>x. if x + eps = 0 then 0 else exp (ln (x + eps) / temp)) output
           in divide_by exp_logits (sum_list exp_logits))"

text \<open>\<^verbatim>\<open>str.lower\<close> on ASCII text, and the substring test \<^verbatim>\<open>a in b\<close>.\<close>

definition lower_char :: "char \<Rightarrow> char" where
  "lower_char c =
     (if 65 \<le> (of_char c :: nat) \<and> (of_char c :: nat) \<le> 90
      then char_of (of_char c + (32::nat)) else c)"

definition lower :: "string \<Rightarrow> string" where
  "lower s = map lower_char s"

fun starts_with :: "'a list \<Rightarrow> 'a list \<Rightarrow> bool" where
  "starts_with [] s = True"
| "starts_with (p # ps) [] = False"
| "starts_with (p # ps) (c # cs) = (p = c \<and> starts_with ps cs)"

fun contains :: "'a list \<Rightarrow> 'a list \<Rightarrow> bool" where
  "contains needle [] = (needle = [])"
| "contains needle (c # cs) = (starts_with needle (c # cs) \<or> contains needle cs)"

text \<open>
  The loop \<^verbatim>\<open>for i, cls in enumerate(classes): if prefer_lower in cls.lower():
  output[i] *= (1.0 + boost)\<close>. Writing beyond the end of the output array raises.
\<close>

fun boost_loop :: "string \<Rightarrow> real \<Rightarrow> nat \<Rightarrow> string list \<Rightarrow> real list \<Rightarrow> error + real list" where
  "boost_loop prefer_lower boost i [] output = Inr output"
| "boost_loop prefer_lower boost i (cls # rest) output =
     (if contains prefer_lower (lower cls)
      then (if i < length output
            then boost_loop prefer_lower boost (Suc i) rest
                   (output[i := output ! i * (1 + boost)])
            else Inl IndexError)
      else boost_loop prefer_lower boost (Suc i) rest output)"

text \<open>\<^verbatim>\<open>if args.prefer:\<close> skips the loop for \<^verbatim>\<open>None\<close> and for the empty string.\<close>

definition apply_boost :: "string option \<Rightarrow> real \<Rightarrow> string list \<Rightarrow> real list \<Rightarrow> error + real list" where
  "apply_boost prefer boost classes output =
     (case prefer of
        None \<Rightarrow> Inr output
      | Some p \<Rightarrow> if p = [] then Inr output else boost_loop (lower p) boost 0 classes output)"

text \<open>
  Lines 76--82, the boost stage. The last line, \<^verbatim>\<open>output = output / np.sum(output)\<close>,
  is not indented under \<^verbatim>\<open>if args.prefer:\<close> and runs on every call.
\<close>

definition boost_stage :: "string option \<Rightarrow> real \<Rightarrow> string list \<Rightarrow> real list \<Rightarrow> error + real list" where
  "boost_stage prefer boost classes output =
     (case apply_boost prefer boost classes output of
        Inl e \<Rightarrow> Inl e
      | Inr boosted \<Rightarrow> divide_by boosted (sum_list boosted))"

text \<open>Lines 68--82 as a whole: \<^verbatim>\<open>if args.temp != 1.0:\<close> guards the temperature stage.\<close>

definition postprocess ::
  "real \<Rightarrow> string option \<Rightarrow> real \<Rightarrow> string list \<Rightarrow> real list \<Rightarrow> error + real list" where
  "postprocess temp prefer boost classes output =
     (case (if temp \<noteq> 1 then temperature_scale temp output else Inr output) of
        Inl e \<Rightarrow> Inl e
      | Inr scaled \<Rightarrow> boost_stage prefer boost classes scaled)"

text \<open>The classes the loop multiplies: those whose lower-cased label contains the
  lower-cased preferred substring.\<close>

definition is_preferred :: "string \<Rightarrow> string list \<Rightarrow> nat \<Rightarrow> bool" where
  "is_preferred p classes i = (i < length classes \<and> contains (lower p) (lower (classes ! i)))"

subsection \<open>Ranking\<close>

text \<open>
  A comparison sort sees the vector through the outcomes of \<^verbatim>\<open>v[i] < v[j]\<close> only.
\<close>

definition comparisons :: "real list \<Rightarrow> bool list list" where
  "comparisons v = map (\<lambda>i. map (\<lambda>j. v ! i < v ! j) [0..<length v]) [0..<length v]"

text \<open>
  \<^verbatim>\<open>np.argsort(v)\<close>. Up to 17 entries the sort is the insertion sort, which keeps equal
  entries in the order of their indices; beyond, it is \<open>introsort\<close>, a function of the
  comparisons.
\<close>

definition argsort :: "(bool list list \<Rightarrow> nat list) \<Rightarrow> real list \<Rightarrow> nat list" where
  "argsort introsort v =
     (if length v \<le> 17 then sort_key (\<lambda>i. v ! i) [0..<length v]
      else introsort (comparisons v))"

text \<open>What a sort of the indices of \<open>v\<close> returns: every index once, in ascending order of
  the entries.\<close>

definition is_argsort :: "real list \<Rightarrow> nat list \<Rightarrow> bool" where
  "is_argsort v r = (sort r = [0..<length v] \<and> sorted (map (\<lambda>i. v ! i) r))"

text \<open>\<open>sorts introsort v\<close>: on the vector \<open>v\<close>, \<open>introsort\<close> is used only as a sort.\<close>

definition sorts :: "(bool list list \<Rightarrow> nat list) \<Rightarrow> real list \<Rightarrow> bool" where
  "sorts introsort v = (length v \<le> 17 \<or> is_argsort v (introsort (comparisons v)))"

text \<open>One comparison sort, to have a sorter at hand in the instances: an index is placed
  by the number of entries smaller than its own.\<close>

definition count_sort :: "bool list list \<Rightarrow> nat list" where
  "count_sort cmp =
     sort_key (\<lambda>i. length (filter (\<lambda>row. row ! i) cmp)) [0..<length cmp]"

text \<open>\<^verbatim>\<open>a[-k:]\<close>: the last \<open>k\<close> entries, all of them when there are fewer; \<^verbatim>\<open>a[-0:]\<close> is \<open>a\<close>.\<close>

definition last_k :: "nat \<Rightarrow> 'a list \<Rightarrow> 'a list" where
  "last_k k xs = (if k = 0 then xs else drop (length xs - k) xs)"

text \<open>\<^verbatim>\<open>np.argsort(v)[-k:][::-1]\<close>, with \<open>k = 5\<close> in the script and \<open>k = 3\<close> in the bot.\<close>

definition top_k :: "(bool list list \<Rightarrow> nat list) \<Rightarrow> nat \<Rightarrow> real list \<Rightarrow> nat list" where
  "top_k introsort k v = rev (last_k k (argsort introsort v))"

definition top5 :: "(bool list list \<Rightarrow> nat list) \<Rightarrow> real list \<Rightarrow> nat list" where
  "top5 introsort v = top_k introsort 5 v"

text \<open>The whole ranking, of which \<open>top_k k\<close> is the first \<open>k\<close> entries.\<close>

definition ranking :: "(bool list list \<Rightarrow> nat list) \<Rightarrow> real list \<Rightarrow> nat list" where
  "ranking introsort v = top_k introsort (length v) v"

text \<open>\<open>precedes r a b\<close>: \<open>a\<close> stands before \<open>b\<close> in the sequence \<open>r\<close>.\<close>

fun precedes :: "nat list \<Rightarrow> nat \<Rightarrow> nat \<Rightarrow> bool" where
  "precedes [] a b = False"
| "precedes (y # ys) a b = (if y = a then b \<in> set ys else precedes ys a b)"

text \<open>\<^verbatim>\<open>[(classes[i], float(out[i])) for i in top_idx]\<close>; a missing label raises.\<close>

fun label_all :: "string list \<Rightarrow> real list \<Rightarrow> nat list \<Rightarrow> error + (string \<times> real) list" where
  "label_all classes v [] = Inr []"
| "label_all classes v (i # is) =
     (if i < length classes
      then (case label_all classes v is of
              Inl e \<Rightarrow> Inl e
            | Inr ps \<Rightarrow> Inr ((classes ! i, v ! i) # ps))
      else Inl IndexError)"

text \<open>\<^verbatim>\<open>np.argmax\<close>: the first index of the largest entry.\<close>

fun argmax_from :: "nat \<Rightarrow> real \<Rightarrow> nat \<Rightarrow> real list \<Rightarrow> nat" where
  "argmax_from best bestv i [] = best"
| "argmax_from best bestv i (x # xs) =
     (if bestv < x then argmax_from i x (Suc i) xs else argmax_from best bestv (Suc i) xs)"

definition argmax :: "real list \<Rightarrow> error + nat" where
  "argmax v = (case v of [] \<Rightarrow> Inl EmptySequence | x # xs \<Rightarrow> Inr (argmax_from 0 x 1 xs))"

text \<open>The script from the output tensor on: post-processing, top-5 listing, best class.\<close>

definition report ::
  "(bool list list \<Rightarrow> nat list) \<Rightarrow> real \<Rightarrow> string option \<Rightarrow> real \<Rightarrow> string list \<Rightarrow> real list
     \<Rightarrow> error + ((string \<times> real) list \<times> (string \<times> real))" where
  "report introsort temp prefer boost classes output =
     (case postprocess temp prefer boost classes output of
        Inl e \<Rightarrow> Inl e
      | Inr v \<Rightarrow>
          (case label_all classes v (top5 introsort v) of
             Inl e \<Rightarrow> Inl e
           | Inr listing \<Rightarrow>
               (case argmax v of
                  Inl e \<Rightarrow> Inl e
                | Inr best_idx \<Rightarrow>
                    if best_idx < length classes
                    then Inr (listing, (classes ! best_idx, v ! best_idx))
                    else Inl IndexError)))"

subsection \<open>Inference: image, dtype branch, interpreter\<close>

datatype dtype = UInt8 | Int8 | Int16 | Int32 | Float16 | Float32 | Float64

text \<open>A decoded image (its size), an array (its shape and dtype), and a loaded model:
  the declared input tensor and the vector the forward pass yields.\<close>

record image =
  width :: nat
  height :: nat

record ndarray =
  shape :: "nat list"
  dtype :: dtype

record interpreter =
  input_shape :: "nat list"
  input_dtype :: dtype
  output_tensor :: "real list"

text \<open>\<^verbatim>\<open>img.convert("RGB").resize((w, h))\<close> and \<^verbatim>\<open>np.array(img)\<close>: rows, columns, three
  channels of bytes.\<close>

definition resize :: "nat \<times> nat \<Rightarrow> image \<Rightarrow> image" where
  "resize wh img = \<lparr>width = fst wh, height = snd wh\<rparr>"

definition np_array :: "image \<Rightarrow> ndarray" where
  "np_array img = \<lparr>shape = [height img, width img, 3], dtype = UInt8\<rparr>"

text \<open>\<^verbatim>\<open>np.expand_dims(a.astype(t), axis=0)\<close>; \<^verbatim>\<open>preprocess_input\<close> keeps shape and dtype.\<close>

definition expand_as :: "dtype \<Rightarrow> ndarray \<Rightarrow> ndarray" where
  "expand_as t a = \<lparr>shape = 1 # shape a, dtype = t\<rparr>"

text \<open>The dtype branch of the script (lines 49--56): float32, uint8, otherwise raise.\<close>

definition script_preprocess :: "dtype \<Rightarrow> ndarray \<Rightarrow> error + ndarray" where
  "script_preprocess dt img_np =
     (if dt = Float32 then Inr (expand_as Float32 img_np)
      else if dt = UInt8 then Inr (expand_as UInt8 img_np)
      else Inl UnsupportedDtype)"

text \<open>The dtype branch of the bot (lines 94--99): uint8, otherwise the float path.\<close>

definition bot_preprocess :: "dtype \<Rightarrow> ndarray \<Rightarrow> ndarray" where
  "bot_preprocess dt arr =
     (if dt = UInt8 then expand_as UInt8 arr else expand_as Float32 arr)"

text \<open>\<^verbatim>\<open>interpreter.set_tensor\<close> refuses a value whose dtype or shape is not the declared
  one; \<^verbatim>\<open>invoke\<close> and \<^verbatim>\<open>get_tensor(...)[0]\<close> then give the output vector.\<close>

definition set_tensor :: "interpreter \<Rightarrow> ndarray \<Rightarrow> error + unit" where
  "set_tensor m a =
     (if dtype a \<noteq> input_dtype m \<or> shape a \<noteq> input_shape m
      then Inl SetTensorError else Inr ())"

text \<open>The script, lines 34--63: \<^verbatim>\<open>IMG_SIZE = input_shape[1]\<close>, load and resize the image,
  branch on the dtype, run the model.\<close>

definition script_infer :: "interpreter \<Rightarrow> image \<Rightarrow> error + real list" where
  "script_infer m picture =
     (if length (input_shape m) \<le> 1 then Inl IndexError
      else let IMG_SIZE = input_shape m ! 1;
               img = resize (IMG_SIZE, IMG_SIZE) picture
           in (case script_preprocess (input_dtype m) (np_array img) of
                 Inl e \<Rightarrow> Inl e
               | Inr img_np \<Rightarrow>
                   (case set_tensor m img_np of
                      Inl e \<Rightarrow> Inl e
                    | Inr _ \<Rightarrow> Inr (output_tensor m))))"

text \<open>The bot, \<^verbatim>\<open>classify_image\<close> (lines 82--111), with the constant \<^verbatim>\<open>IMG_SIZE = 224\<close>.\<close>

definition IMG_SIZE :: nat where
  "IMG_SIZE = 224"

definition classify_image ::
  "(bool list list \<Rightarrow> nat list) \<Rightarrow> interpreter \<Rightarrow> string list \<Rightarrow> image \<Rightarrow> error + (string \<times> real) list" where
  "classify_image introsort m classes picture =
     (let img = resize (IMG_SIZE, IMG_SIZE) picture;
          arr = bot_preprocess (input_dtype m) (np_array img)
      in (case set_tensor m arr of
            Inl e \<Rightarrow> Inl e
          | Inr _ \<Rightarrow> label_all classes (output_tensor m) (top_k introsort 3 (output_tensor m))))"

subsection \<open>Serial exchange (plant\_bot.py, lines 152--187)\<close>

type_synonym byte = "8 word"

text \<open>A Python string: its sequence of Unicode code points.\<close>

type_synonym str = "nat list"

text \<open>The error handlers of \<^verbatim>\<open>bytes.decode\<close>; the bot passes \<^verbatim>\<open>errors="ignore"\<close>.\<close>

datatype errors = Strict | Ignore | Replace

text \<open>What a handler does with a run of undecodable bytes, given the decoding of the
  bytes after it: raise, skip the run, or put U+FFFD in its place.\<close>

fun on_error :: "errors \<Rightarrow> error + str \<Rightarrow> error + str" where
  "on_error Strict r = Inl UnicodeDecodeError"
| "on_error Ignore r = r"
| "on_error Replace r = (case r of Inl e \<Rightarrow> Inl e | Inr t \<Rightarrow> Inr (65533 # t))"

definition emit :: "nat \<Rightarrow> error + str \<Rightarrow> error + str" where
  "emit cp r = (case r of Inl e \<Rightarrow> Inl e | Inr t \<Rightarrow> Inr (cp # t))"

definition is_continuation :: "nat \<Rightarrow> bool" where
  "is_continuation c = (128 \<le> c \<and> c < 192)"

text \<open>
  One step of the UTF-8 decoder (the default encoding of \<^verbatim>\<open>decode\<close>) on byte values:
  either a code point and the number of bytes it took, or the number of bytes in error.
  A byte that cannot start a sequence is an error of one byte; a wrong second, third or
  fourth byte is an error of the one, two or three bytes before it; a sequence cut off
  by the end of the data is an error of all the bytes left. Overlong forms, surrogates
  and code points above U+10FFFF are refused at the second byte.
\<close>

fun utf8_step :: "nat list \<Rightarrow> nat option \<times> nat" where
  "utf8_step [] = (None, 0)"
| "utf8_step (b # rest) =
     (if b < 128 then (Some b, 1)
      else if b < 194 then (None, 1)
      else if b < 224 then
        (case rest of
           [] \<Rightarrow> (None, 1)
         | c2 # r2 \<Rightarrow>
             if is_continuation c2 then (Some ((b - 192) * 64 + (c2 - 128)), 2)
             else (None, 1))
      else if b < 240 then
        (case rest of
           [] \<Rightarrow> (None, 1)
         | c2 # r2 \<Rightarrow>
             if \<not> is_continuation c2 \<or> (b = 224 \<and> c2 < 160) \<or> (b = 237 \<and> 160 \<le> c2)
             then (None, 1)
             else (case r2 of
                     [] \<Rightarrow> (None, 2)
                   | c3 # r3 \<Rightarrow>
                       if is_continuation c3
                       then (Some ((b - 224) * 4096 + (c2 - 128) * 64 + (c3 - 128)), 3)
                       else (None, 2)))
      else if b < 245 then
        (case rest of
           [] \<Rightarrow> (None, 1)
         | c2 # r2 \<Rightarrow>
             if \<not> is_continuation c2 \<or> (b = 240 \<and> c2 < 144) \<or> (b = 244 \<and> 144 \<le> c2)
             then (None, 1)
             else (case r2 of
                     [] \<Rightarrow> (None, 2)
                   | c3 # r3 \<Rightarrow>
                       if \<not> is_continuation c3 then (None, 2)
                       else (case r3 of
                               [] \<Rightarrow> (None, 3)
                             | c4 # r4 \<Rightarrow>
                                 if is_continuation c4
                                 then (Some ((b - 240) * 262144 + (c2 - 128) * 4096
                                             + (c3 - 128) * 64 + (c4 - 128)), 4)
                                 else (None, 3))))
      else (None, 1))"

text \<open>The decoding loop: a code point is appended, a run of bytes in error goes to the
  handler, and decoding goes on behind either.\<close>

function utf8_decode :: "errors \<Rightarrow> nat list \<Rightarrow> error + str" where
  "utf8_decode h bs =
     (if bs = [] then Inr []
      else (case utf8_step bs of
              (Some cp, n) \<Rightarrow> emit cp (utf8_decode h (drop n bs))
            | (None, n) \<Rightarrow> on_error h (utf8_decode h (drop n bs))))"
  by pat_completeness auto
termination
proof (relation "measure (\<lambda>(h, bs). length bs)")
  show "wf (measure (\<lambda>(h, bs). length bs))" by simp
next
  fix h :: errors and bs x y
  assume "bs \<noteq> []" and "(x, y) = utf8_step bs"
  then have "0 < y"
    by (cases bs) (auto split: if_splits list.splits)
  then show "((h, drop y bs), (h, bs)) \<in> measure (\<lambda>(h, bs). length bs)"
    using \<open>bs \<noteq> []\<close> by simp
next
  fix h :: errors and bs x y
  assume "bs \<noteq> []" and "(x, y) = utf8_step bs"
  then have "0 < y"
    by (cases bs) (auto split: if_splits list.splits)
  then show "((h, drop y bs), (h, bs)) \<in> measure (\<lambda>(h, bs). length bs)"
    using \<open>bs \<noteq> []\<close> by simp
qed

declare utf8_decode.simps [simp del]

definition decode :: "errors \<Rightarrow> byte list \<Rightarrow> error + str" where
  "decode h bs = utf8_decode h (map unat bs)"

text \<open>\<^verbatim>\<open>str.strip()\<close> removes the code points that \<^verbatim>\<open>str.isspace\<close> accepts from both ends.\<close>

definition isspace :: "nat \<Rightarrow> bool" where
  "isspace c =
     ((9 \<le> c \<and> c \<le> 13) \<or> (28 \<le> c \<and> c \<le> 32) \<or> c = 133 \<or> c = 160 \<or> c = 5760
      \<or> (8192 \<le> c \<and> c \<le> 8202) \<or> c = 8232 \<or> c = 8233 \<or> c = 8239 \<or> c = 8287
      \<or> c = 12288)"

definition strip :: "str \<Rightarrow> str" where
  "strip t = rev (dropWhile isspace (rev (dropWhile isspace t)))"

definition ACK_PUMP_DONE :: str where
  "ACK_PUMP_DONE = map of_char ''ACK:PUMP_DONE''"

text \<open>The module-level \<^verbatim>\<open>ser\<close>: \<^verbatim>\<open>None\<close> when the port could not be opened.\<close>

record serial =
  is_open :: bool

text \<open>
  The answers of \<^verbatim>\<open>/water\<close>: "Arduino not connected.", "Watering complete!" (the
  acknowledged outcome), the reply text itself (an unrecognized reply) and
  "Done (no serial response)." (silence).
\<close>

datatype water_answer =
    WaterNotConnected
  | WateringComplete
  | WaterReply str
  | DoneNoSerialResponse

text \<open>
  \<^verbatim>\<open>water\<close>, lines 170--187. \<open>arrived\<close> is what \<^verbatim>\<open>ser.read_all()\<close> returns after the
  four seconds: the input buffer was emptied before the command was written.
\<close>

definition water :: "serial option \<Rightarrow> byte list \<Rightarrow> error + water_answer" where
  "water ser arrived =
     (case ser of
        None \<Rightarrow> Inr WaterNotConnected
      | Some port \<Rightarrow>
          if \<not> is_open port then Inr WaterNotConnected
          else (case decode Ignore arrived of
                  Inl e \<Rightarrow> Inl e
                | Inr decoded \<Rightarrow>
                    let reply = strip decoded
                    in if contains ACK_PUMP_DONE reply then Inr WateringComplete
                       else if reply \<noteq> [] then Inr (WaterReply reply)
                       else Inr DoneNoSerialResponse))"

text \<open>The answers of \<^verbatim>\<open>/status\<close>, lines 152--165.\<close>

datatype status_answer =
    StatusNotConnected
  | StatusReply str
  | NoResponseFromArduino

definition status :: "serial option \<Rightarrow> byte list \<Rightarrow> error + status_answer" where
  "status ser arrived =
     (case ser of
        None \<Rightarrow> Inr StatusNotConnected
      | Some port \<Rightarrow>
          if \<not> is_open port then Inr StatusNotConnected
          else (case decode Ignore arrived of
                  Inl e \<Rightarrow> Inl e
                | Inr decoded \<Rightarrow>
                    let reply = strip decoded
                    in if reply = [] then Inr NoResponseFromArduino
                       else Inr (StatusReply reply)))"


section \<open>Lemmas on the post-processing and the ranking\<close>

lemma sum_list_map_divide: "sum_list (map (\<lambda>x. x / s) v) = sum_list v / (s::real)"
  by (induction v) (simp_all add: add_divide_distrib)

lemma divide_by_sum:
  assumes "sum_list v \<noteq> 0"
  shows "divide_by v (sum_list v) = Inr (map (\<lambda>x. x / sum_list v) v)"
    and "sum_list (map (\<lambda>x. x / sum_list v) v) = 1"
  using assms by (simp_all add: divide_by_def sum_list_map_divide)

lemma sum_list_pos_real:
  fixes v :: "real list"
  assumes "\<forall>x \<in> set v. 0 \<le> x" and "\<exists>x \<in> set v. 0 < x"
  shows "0 < sum_list v"
  using assms
proof (induction v)
  case Nil
  then show ?case by simp
next
  case (Cons a v)
  have nn: "0 \<le> sum_list v" using Cons.prems(1) by (simp add: sum_list_nonneg)
  show ?case
  proof (cases "0 < a")
    case True
    then show ?thesis using nn by simp
  next
    case False
    then have "\<exists>x \<in> set v. 0 < x" using Cons.prems(2) by auto
    then have "0 < sum_list v" using Cons.IH Cons.prems(1) by simp
    moreover have "0 \<le> a" using Cons.prems(1) by simp
    ultimately show ?thesis by simp
  qed
qed

text \<open>What the boost loop returns, entry by entry.\<close>

lemma boost_loop_ok:
  "i + length classes \<le> length out \<Longrightarrow>
   \<exists>v. boost_loop p b i classes out = Inr v"
proof (induction classes arbitrary: i out)
  case Nil
  then show ?case by simp
next
  case (Cons c cs)
  then show ?case by simp
qed

lemma boost_loop_nth:
  "boost_loop p b i classes out = Inr v \<Longrightarrow>
   length v = length out \<and>
   (\<forall>j < length out. v ! j =
      (if i \<le> j \<and> j < i + length classes \<and> contains p (lower (classes ! (j - i)))
       then out ! j * (1 + b) else out ! j))"
proof (induction classes arbitrary: i out)
  case Nil
  then show ?case by simp
next
  case (Cons c cs)
  show ?case
  proof (cases "contains p (lower c)")
    case True
    with Cons.prems have lt: "i < length out"
      and rec: "boost_loop p b (Suc i) cs (out[i := out ! i * (1 + b)]) = Inr v"
      by (simp_all split: if_splits)
    from Cons.IH[OF rec] have len: "length v = length out"
      and nth: "\<And>j. j < length out \<Longrightarrow> v ! j =
        (if Suc i \<le> j \<and> j < Suc i + length cs \<and> contains p (lower (cs ! (j - Suc i)))
         then (out[i := out ! i * (1 + b)]) ! j * (1 + b)
         else (out[i := out ! i * (1 + b)]) ! j)"
      by simp_all
    show ?thesis
    proof (intro conjI allI impI)
      show "length v = length out" by (rule len)
    next
      fix j assume j: "j < length out"
      show "v ! j = (if i \<le> j \<and> j < i + length (c # cs) \<and> contains p (lower ((c # cs) ! (j - i)))
                     then out ! j * (1 + b) else out ! j)"
      proof (cases "j = i")
        case True
        then show ?thesis using nth[OF j] lt \<open>contains p (lower c)\<close> by simp
      next
        case False
        then show ?thesis using nth[OF j]
          by (cases "i < j") (auto simp: nth_Cons' Suc_diff_Suc not_less less_Suc_eq_le)
      qed
    qed
  next
    case False
    with Cons.prems have rec: "boost_loop p b (Suc i) cs out = Inr v" by simp
    from Cons.IH[OF rec] have len: "length v = length out"
      and nth: "\<And>j. j < length out \<Longrightarrow> v ! j =
        (if Suc i \<le> j \<and> j < Suc i + length cs \<and> contains p (lower (cs ! (j - Suc i)))
         then out ! j * (1 + b) else out ! j)"
      by simp_all
    show ?thesis
    proof (intro conjI allI impI)
      show "length v = length out" by (rule len)
    next
      fix j assume j: "j < length out"
      show "v ! j = (if i \<le> j \<and> j < i + length (c # cs) \<and> contains p (lower ((c # cs) ! (j - i)))
                     then out ! j * (1 + b) else out ! j)"
      proof (cases "j = i")
        case True
        then show ?thesis using nth[OF j] False by simp
      next
        case False
        then show ?thesis using nth[OF j]
          by (cases "i < j") (auto simp: nth_Cons' Suc_diff_Suc not_less less_Suc_eq_le)
      qed
    qed
  qed
qed

lemma insort_key_cong_order:
  "\<forall>y \<in> set ys. (f x \<le> f y) = (g x \<le> g y) \<Longrightarrow> insort_key f x ys = insort_key g x ys"
  by (induction ys) simp_all

lemma sort_key_cong_order:
  "\<forall>x \<in> set xs. \<forall>y \<in> set xs. (f x \<le> f y) = (g x \<le> g y) \<Longrightarrow> sort_key f xs = sort_key g xs"
proof (induction xs)
  case Nil
  then show ?case by simp
next
  case (Cons a xs)
  have "sort_key f xs = sort_key g xs" using Cons by simp
  moreover have "insort_key f a (sort_key g xs) = insort_key g a (sort_key g xs)"
    using Cons.prems by (intro insort_key_cong_order) simp
  ultimately show ?case by simp
qed

lemma comparisons_scale:
  assumes "0 < s"
  shows "comparisons (map (\<lambda>x. x / s) v) = comparisons v"
  unfolding comparisons_def length_map
  using assms by (auto intro!: map_cong simp: divide_less_cancel)

lemma argsort_scale:
  assumes "0 < s"
  shows "argsort q (map (\<lambda>x. x / s) v) = argsort q v"
proof -
  have "sort_key (\<lambda>i. map (\<lambda>x. x / s) v ! i) [0..<length v] = sort_key (\<lambda>i. v ! i) [0..<length v]"
  proof (rule sort_key_cong_order, intro ballI)
    fix x y
    show "(map (\<lambda>x. x / s) v ! x \<le> map (\<lambda>x. x / s) v ! y) = (v ! x \<le> v ! y)"
      if "x \<in> set [0..<length v]" "y \<in> set [0..<length v]"
      using that assms by (simp add: divide_le_cancel)
  qed
  then show ?thesis by (simp add: argsort_def comparisons_scale[OF assms])
qed

lemma top_k_scale: "0 < s \<Longrightarrow> top_k q k (map (\<lambda>x. x / s) v) = top_k q k v"
  by (simp add: top_k_def argsort_scale)

lemma sort_key_is_argsort: "is_argsort v (sort_key (\<lambda>i. v ! i) [0..<length v])"
proof -
  have "sort (sort_key (\<lambda>i. v ! i) [0..<length v]) = [0..<length v]"
    by (rule sorted_distinct_set_unique) simp_all
  then show ?thesis by (simp add: is_argsort_def)
qed

lemma argsort_is_argsort: "sorts q v \<Longrightarrow> is_argsort v (argsort q v)"
  by (auto simp: sorts_def argsort_def sort_key_is_argsort)

lemma is_argsort_set: "is_argsort v r \<Longrightarrow> set r = {..<length v}"
proof -
  assume "is_argsort v r"
  then have "set (sort r) = set [0..<length v]" by (simp add: is_argsort_def)
  then show ?thesis by (simp add: atLeast0LessThan)
qed

lemma is_argsort_distinct: "is_argsort v r \<Longrightarrow> distinct r"
proof -
  assume "is_argsort v r"
  then have "distinct (sort r)" by (simp add: is_argsort_def)
  then show ?thesis by simp
qed

lemma is_argsort_length: "is_argsort v r \<Longrightarrow> length r = length v"
proof -
  assume "is_argsort v r"
  then have "length (sort r) = length [0..<length v]" by (simp add: is_argsort_def)
  then show ?thesis by simp
qed

lemma is_argsort_sorted: "is_argsort v r \<Longrightarrow> sorted_wrt (\<lambda>a b. v ! a \<le> v ! b) r"
  by (simp add: is_argsort_def sorted_map)

lemma last_k_sorted: "sorted_wrt R r \<Longrightarrow> sorted_wrt R (last_k k r)"
  by (simp add: last_k_def sorted_wrt_drop)

lemma top_k_sorted:
  assumes "sorts q v"
  shows "sorted_wrt (\<lambda>a b. v ! b \<le> v ! a) (top_k q k v)"
  using last_k_sorted[OF is_argsort_sorted[OF argsort_is_argsort[OF assms]], of k]
  by (simp add: top_k_def sorted_wrt_rev)

lemma top_k_distinct: "sorts q v \<Longrightarrow> distinct (top_k q k v)"
  using is_argsort_distinct[OF argsort_is_argsort, of q v]
  by (simp add: top_k_def last_k_def)

lemma top_k_subset:
  assumes "sorts q v"
  shows "set (top_k q k v) \<subseteq> {..<length v}"
  using set_drop_subset[of "length (argsort q v) - k" "argsort q v"]
    is_argsort_set[OF argsort_is_argsort[OF assms]]
  by (auto simp: top_k_def last_k_def)

lemma top_k_length:
  assumes "sorts q v"
  shows "length (top_k q k v) = (if k = 0 then length v else min k (length v))"
  using is_argsort_length[OF argsort_is_argsort[OF assms]]
  by (auto simp: top_k_def last_k_def)

lemma top_k_best:
  assumes "sorts q v" and "a \<in> set (top_k q k v)" and "b < length v"
    and "b \<notin> set (top_k q k v)"
  shows "v ! b \<le> v ! a"
proof -
  define r where "r = argsort q v"
  have ia: "is_argsort v r" unfolding r_def by (rule argsort_is_argsort[OF assms(1)])
  have tk: "set (top_k q k v) = set (last_k k r)" by (simp add: top_k_def r_def)
  have br: "b \<in> set r" using assms(3) is_argsort_set[OF ia] by simp
  have k: "k \<noteq> 0"
  proof
    assume "k = 0"
    then have "last_k k r = r" by (simp add: last_k_def)
    then show False using br assms(4) tk by simp
  qed
  define m where "m = length r - k"
  have lk: "last_k k r = drop m r" using k by (simp add: last_k_def m_def)
  have a: "a \<in> set (drop m r)" using assms(2) tk lk by simp
  have nb: "b \<notin> set (drop m r)" using assms(4) tk lk by simp
  have "set r = set (take m r) \<union> set (drop m r)"
    using set_append[of "take m r" "drop m r"] by simp
  then have b: "b \<in> set (take m r)" using br nb by blast
  have "sorted_wrt (\<lambda>a b. v ! a \<le> v ! b) (take m r @ drop m r)"
    using is_argsort_sorted[OF ia] by simp
  then have "\<forall>x \<in> set (take m r). \<forall>y \<in> set (drop m r). v ! x \<le> v ! y"
    unfolding sorted_wrt_append by blast
  then show ?thesis using a b by blast
qed

lemma ranking_eq: "sorts q v \<Longrightarrow> ranking q v = rev (argsort q v)"
  using is_argsort_length[OF argsort_is_argsort, of q v]
  by (simp add: ranking_def top_k_def last_k_def)

lemma ranking_set: "sorts q v \<Longrightarrow> set (ranking q v) = {..<length v}"
  using is_argsort_set[OF argsort_is_argsort, of q v] by (simp add: ranking_eq)

lemma precedes_sorted:
  "sorted_wrt R r \<Longrightarrow> precedes r a b \<Longrightarrow> R a b"
  by (induction r) (auto split: if_splits)

lemma precedes_total:
  "a \<in> set r \<Longrightarrow> b \<in> set r \<Longrightarrow> a \<noteq> b \<Longrightarrow> precedes r a b \<or> precedes r b a"
  by (induction r) auto

lemma precedes_ranking_ge:
  assumes "sorts q v" and "precedes (ranking q v) a b"
  shows "v ! b \<le> v ! a"
  using precedes_sorted[OF top_k_sorted[OF assms(1), of "length v"]] assms(2)
  by (simp add: ranking_def)

lemma precedes_ranking_strict:
  assumes "sorts q v" and "a < length v" and "b < length v" and "v ! b < v ! a"
  shows "precedes (ranking q v) a b"
proof -
  have "a \<noteq> b" using assms(4) by auto
  then have "precedes (ranking q v) a b \<or> precedes (ranking q v) b a"
    using assms(2,3) by (intro precedes_total) (simp_all add: ranking_set[OF assms(1)])
  moreover have "\<not> precedes (ranking q v) b a"
    using precedes_ranking_ge[OF assms(1), of b a] assms(4) by auto
  ultimately show ?thesis by blast
qed

lemma count_sort_key:
  assumes "i < length v"
  shows "length (filter (\<lambda>row. row ! i) (comparisons v))
         = card {j. j < length v \<and> v ! j < v ! i}"
proof -
  have "length (filter (\<lambda>row. row ! i) (comparisons v))
        = length (filter (\<lambda>j. v ! j < v ! i) [0..<length v])"
    unfolding comparisons_def filter_map length_map
    using assms by (intro arg_cong[where f = length] filter_cong) (simp_all add: comp_def)
  also have "\<dots> = card ({j. v ! j < v ! i} \<inter> set [0..<length v])"
    by (rule distinct_length_filter) simp
  also have "{j. v ! j < v ! i} \<inter> set [0..<length v] = {j. j < length v \<and> v ! j < v ! i}"
    by auto
  finally show ?thesis .
qed

lemma count_mono:
  assumes "a < length v" and "v ! a < v ! b"
  shows "card {j. j < length v \<and> v ! j < v ! a} < card {j. j < length v \<and> v ! j < (v ! b :: real)}"
proof (rule psubset_card_mono)
  show "finite {j. j < length v \<and> v ! j < v ! b}" by simp
  show "{j. j < length v \<and> v ! j < v ! a} \<subset> {j. j < length v \<and> v ! j < v ! b}"
    using assms by (auto simp: psubset_eq)
qed

lemma count_sort_is_argsort: "is_argsort v (count_sort (comparisons v))"
proof -
  define c where "c = (\<lambda>i. length (filter (\<lambda>row. row ! i) (comparisons v)))"
  define r where "r = sort_key c [0..<length v]"
  have len: "length (comparisons v) = length v" by (simp add: comparisons_def)
  have r: "count_sort (comparisons v) = r" by (simp add: count_sort_def r_def c_def len)
  have "sort r = [0..<length v]"
    unfolding r_def by (rule sorted_distinct_set_unique) simp_all
  moreover have "sorted_wrt (\<lambda>a b. v ! a \<le> v ! b) r"
  proof (rule sorted_wrt_mono_rel)
    show "sorted_wrt (\<lambda>a b. c a \<le> c b) r"
      using sorted_sort_key[of c "[0..<length v]"] by (simp add: r_def sorted_map)
    fix a b assume "a \<in> set r" "b \<in> set r" "c a \<le> c b"
    then have ab: "a < length v" "b < length v" by (simp_all add: r_def)
    show "v ! a \<le> v ! b"
    proof (rule ccontr)
      assume "\<not> v ! a \<le> v ! b"
      then have "v ! b < v ! a" by simp
      then have "c b < c a"
        using count_mono[OF ab(2)] count_sort_key[OF ab(1)] count_sort_key[OF ab(2)]
        by (simp add: c_def)
      then show False using \<open>c a \<le> c b\<close> by simp
    qed
  qed
  ultimately show ?thesis by (simp add: is_argsort_def r sorted_map)
qed

lemma sorts_count_sort: "sorts count_sort v"
  by (simp add: sorts_def count_sort_is_argsort)

lemma boost_loop_zero:
  "i + length classes \<le> length out \<Longrightarrow> boost_loop p 0 i classes out = Inr out"
  by (induction classes arbitrary: i out) simp_all

lemma apply_boost_identity:
  assumes "prefer = None \<or> prefer = Some [] \<or> (boost = 0 \<and> length classes \<le> length out)"
  shows "apply_boost prefer boost classes out = Inr out"
  using assms by (auto simp: apply_boost_def boost_loop_zero split: option.splits)

lemma temperature_scale_ok:
  assumes "0 < temp" and "\<forall>x \<in> set out. 0 \<le> x" and "out \<noteq> []"
  shows "\<exists>w. temperature_scale temp out = Inr w \<and> length w = length out
            \<and> (\<forall>x \<in> set w. 0 < x) \<and> w \<noteq> []"
proof -
  define e where "e = map (\<lambda>x. exp (ln (x + eps) / temp)) out"
  have pos: "\<forall>x \<in> set out. 0 < x + eps" using assms(2) by (auto simp: eps_def intro: add_nonneg_pos)
  have e_alt: "map (\<lambda>x. if x + eps = 0 then 0 else exp (ln (x + eps) / temp)) out = e"
    unfolding e_def using pos by (intro map_cong) auto
  have e_pos: "\<forall>y \<in> set e. 0 < y" by (simp add: e_def)
  have e_ne: "e \<noteq> []" using assms(3) by (simp add: e_def)
  have s_pos: "0 < sum_list e"
    using e_pos e_ne by (intro sum_list_pos_real) (auto simp: less_imp_le neq_Nil_conv)
  have noerr: "\<not> (\<exists>x \<in> set out. x + eps < 0)" using pos by force
  have "temperature_scale temp out = Inr (map (\<lambda>y. y / sum_list e) e)"
    using assms(1) noerr s_pos by (simp add: temperature_scale_def e_alt divide_by_def)
  moreover have "\<forall>x \<in> set (map (\<lambda>y. y / sum_list e) e). 0 < x"
    using e_pos s_pos by simp
  ultimately show ?thesis using e_ne by (simp add: e_def)
qed

lemma apply_boost_nth:
  assumes "apply_boost prefer boost classes out = Inr v"
  shows "length v = length out"
    and "\<And>j. j < length out \<Longrightarrow> v ! j = out ! j * (1 + boost) \<or> v ! j = out ! j"
proof -
  show "length v = length out"
    using assms boost_loop_nth by (auto simp: apply_boost_def split: option.splits if_splits)
  fix j assume "j < length out"
  then show "v ! j = out ! j * (1 + boost) \<or> v ! j = out ! j"
    using assms boost_loop_nth[of _ boost 0 classes out v]
    by (auto simp: apply_boost_def split: option.splits if_splits)
qed

lemma apply_boost_ok:
  assumes "length classes \<le> length out"
  shows "\<exists>v. apply_boost prefer boost classes out = Inr v"
  using boost_loop_ok[of 0 classes out] assms
  by (auto simp: apply_boost_def split: option.splits)

lemma boost_stage_sum:
  assumes "0 < 1 + boost" and "\<forall>x \<in> set out. 0 \<le> x" and "\<exists>x \<in> set out. 0 < x"
    and "length classes \<le> length out"
  shows "\<exists>v. boost_stage prefer boost classes out = Inr v \<and> sum_list v = 1 \<and> length v = length out"
proof -
  obtain w where w: "apply_boost prefer boost classes out = Inr w"
    using apply_boost_ok[OF assms(4)] by blast
  note len = apply_boost_nth(1)[OF w] and nth = apply_boost_nth(2)[OF w]
  have nn: "\<forall>x \<in> set w. 0 \<le> x"
  proof (clarsimp simp: in_set_conv_nth)
    fix j assume j: "j < length w"
    then have "0 \<le> out ! j" using assms(2) len by simp
    then show "0 \<le> w ! j" using nth[of j] j len assms(1) by (auto simp: mult_nonneg_nonneg less_imp_le)
  qed
  obtain j where j: "j < length out" "0 < out ! j"
    using assms(3) by (auto simp: in_set_conv_nth)
  have "0 < w ! j" using nth[OF j(1)] j(2) assms(1) by (auto simp: mult_pos_pos)
  moreover have "w ! j \<in> set w" using j(1) len by simp
  ultimately have "\<exists>x \<in> set w. 0 < x" by blast
  then have "0 < sum_list w" using nn by (intro sum_list_pos_real) auto
  then have "sum_list w \<noteq> 0" by simp
  then show ?thesis using w len divide_by_sum[of w] by (simp add: boost_stage_def)
qed

lemma boost_stage_values:
  assumes "boost_stage (Some p) boost classes out = Inr v" and "p \<noteq> []" and "out \<noteq> []"
  obtains w where "apply_boost (Some p) boost classes out = Inr w"
    and "length w = length out" and "length v = length out" and "sum_list w \<noteq> 0"
    and "\<And>j. j < length out \<Longrightarrow>
           w ! j = (if is_preferred p classes j then out ! j * (1 + boost) else out ! j)"
    and "\<And>j. j < length out \<Longrightarrow> v ! j = w ! j / sum_list w"
proof -
  from assms(1) obtain w where w: "apply_boost (Some p) boost classes out = Inr w"
    and d: "divide_by w (sum_list w) = Inr v"
    by (auto simp: boost_stage_def split: sum.splits)
  from w assms(2) have bl: "boost_loop (lower p) boost 0 classes out = Inr w"
    by (simp add: apply_boost_def)
  note n = boost_loop_nth[OF bl]
  have len: "length w = length out" using n by simp
  have wne: "w \<noteq> []" using len assms(3) by auto
  have s: "sum_list w \<noteq> 0" and v: "v = map (\<lambda>x. x / sum_list w) w"
    using d wne by (auto simp: divide_by_def split: if_splits)
  show ?thesis
  proof (rule that[OF w len _ s])
    show "length v = length out" using v len by simp
  next
    fix j assume j: "j < length out"
    show "w ! j = (if is_preferred p classes j then out ! j * (1 + boost) else out ! j)"
      using n j by (auto simp: is_preferred_def)
    show "v ! j = w ! j / sum_list w" using v j len by simp
  qed
qed


section \<open>The claims on post-processing and ranking\<close>

text \<open>
  Claim C1, as the code has it. With temperature 1 and no preferred substring (or with
  boost 0 and a label for no more classes than the vector has entries), the
  post-processor returns the vector divided by its sum, provided the sum is positive:
  the top-\<open>k\<close> ranking of the result is the ranking of the raw vector, and the values are
  the raw values when the raw vector sums to 1.
\<close>

theorem C1_amended:
  assumes "prefer = None \<or> prefer = Some [] \<or> (boost = 0 \<and> length classes \<le> length out)"
    and "0 < sum_list out"
  shows "postprocess 1 prefer boost classes out = Inr (map (\<lambda>x. x / sum_list out) out)
       \<and> top_k introsort k (map (\<lambda>x. x / sum_list out) out) = top_k introsort k out
       \<and> (sum_list out = 1 \<longrightarrow> postprocess 1 prefer boost classes out = Inr out)"
proof -
  have "postprocess 1 prefer boost classes out = Inr (map (\<lambda>x. x / sum_list out) out)"
    using assms(2) apply_boost_identity[OF assms(1)]
    by (simp add: postprocess_def boost_stage_def divide_by_def)
  moreover have "map (\<lambda>x. x / sum_list out) out = out" if "sum_list out = 1"
    using that by (simp add: map_idI)
  ultimately show ?thesis using assms(2) by (simp add: top_k_scale)
qed

text \<open>An instance of the theorem.\<close>

theorem C1_witness:
  "postprocess 1 None (1/4) [''rose'', ''cactus''] [3/4, 1/4] = Inr [3/4, 1/4]
   \<and> top_k count_sort 5 (map (\<lambda>x. x / sum_list [1/2, 1/4 :: real]) [1/2, 1/4]) = top_k count_sort 5 [1/2, 1/4]"
  using C1_amended[of None "1/4" "[''rose'', ''cactus'']" "[3/4, 1/4]" count_sort 5]
    C1_amended[of None "1/4" "[''rose'', ''cactus'']" "[1/2, 1/4]" count_sort 5]
  by simp

text \<open>The vector \<open>[1/2, 1/4]\<close> does not come back unchanged: line 82 normalises it.\<close>

theorem C1_counterexample:
  "postprocess 1 None (1/4) [''rose'', ''cactus''] [1/2, 1/4] = Inr [2/3, 1/3]
   \<and> postprocess 1 None (1/4) [''rose'', ''cactus''] [1/2, 1/4] \<noteq> Inr [1/2, 1/4]"
  by (simp add: postprocess_def boost_stage_def apply_boost_def divide_by_def)

text \<open>
  Claim C2, as the code has it. For a vector of non-negative entries with a positive
  one, a temperature above zero and a boost above \<open>-1\<close> (and a label for no more
  classes than the vector has entries), post-processing succeeds and the result sums
  to exactly 1, whichever stages apply.
\<close>

theorem C2_amended:
  assumes "0 < temp" and "0 < 1 + boost"
    and "\<forall>x \<in> set out. 0 \<le> x" and "\<exists>x \<in> set out. 0 < x"
    and "length classes \<le> length out"
  shows "\<exists>v. postprocess temp prefer boost classes out = Inr v \<and> sum_list v = 1
            \<and> length v = length out"
proof (cases "temp = 1")
  case True
  then show ?thesis using boost_stage_sum[OF assms(2-5)] by (simp add: postprocess_def)
next
  case False
  have ne: "out \<noteq> []" using assms(4) by auto
  obtain w where w: "temperature_scale temp out = Inr w" "length w = length out"
      "\<forall>x \<in> set w. 0 < x" "w \<noteq> []"
    using temperature_scale_ok[OF assms(1,3) ne] by blast
  have "\<forall>x \<in> set w. 0 \<le> x" using w(3) by (auto simp: less_imp_le)
  moreover have "\<exists>x \<in> set w. 0 < x" using w(3,4) by (cases w) auto
  moreover have "length classes \<le> length w" using assms(5) w(2) by simp
  ultimately obtain v where "boost_stage prefer boost classes w = Inr v" "sum_list v = 1"
      "length v = length w"
    using boost_stage_sum[of boost w classes "prefer"] assms(2) by blast
  then show ?thesis using False w(1,2) by (simp add: postprocess_def)
qed

text \<open>An instance of the theorem.\<close>

theorem C2_witness:
  "\<exists>v. postprocess (1/2) (Some ''cactus'') (1/2) [''rose'', ''cactus'', ''fern'']
          [7/10, 2/10, 1/10] = Inr v \<and> sum_list v = 1
        \<and> length v = length [7/10, 2/10, 1/10 :: real]"
  using C2_amended[of "1/2" "1/2" "[7/10, 2/10, 1/10]" "[''rose'', ''cactus'', ''fern'']"
      "Some ''cactus''"]
  by simp

text \<open>At temperature 0 every entry is divided by zero; at boost \<open>-1\<close> the only mass is
  multiplied by zero. Neither result sums to 1.\<close>

theorem C2_counterexample:
  "postprocess 0 None (1/4) [''rose'', ''cactus'', ''fern''] [7/10, 2/10, 1/10] = Inl NonFinite
   \<and> postprocess 1 (Some ''rose'') (-1) [''rose'', ''cactus''] [1, 0] = Inl NonFinite"
  by (simp add: postprocess_def temperature_scale_def boost_stage_def apply_boost_def
      lower_def lower_char_def divide_by_def)

text \<open>
  Claim C3, as the code has it. For \<open>k\<close> above zero the top-\<open>k\<close> sequence holds \<open>k\<close>
  distinct valid class indices (all of them when the vector has fewer than \<open>k\<close>
  entries) in descending order of probability, and no class left out is more probable
  than a class returned. The order of classes with exactly the same probability is
  left open.
\<close>

theorem C3_amended:
  assumes "sorts introsort v"
  shows "sorted_wrt (\<lambda>a b. v ! b \<le> v ! a) (top_k introsort k v)
       \<and> distinct (top_k introsort k v)
       \<and> set (top_k introsort k v) \<subseteq> {..<length v}
       \<and> length (top_k introsort k v) = (if k = 0 then length v else min k (length v))
       \<and> (\<forall>a \<in> set (top_k introsort k v). \<forall>b < length v.
             b \<notin> set (top_k introsort k v) \<longrightarrow> v ! b \<le> v ! a)"
  using top_k_sorted[OF assms] top_k_distinct[OF assms] top_k_subset[OF assms]
    top_k_length[OF assms] top_k_best[OF assms]
  by blast

text \<open>An instance of the theorem: the two most probable of four classes.\<close>

theorem C3_witness:
  "sorts count_sort [1/5, 1/2, 3/5, 1/10]
   \<and> top_k count_sort 2 [1/5, 1/2, 3/5, 1/10] = [2, 1]
   \<and> sorted_wrt (\<lambda>a b. [1/5, 1/2, 3/5, 1/10 :: real] ! b \<le> [1/5, 1/2, 3/5, 1/10] ! a)
        (top_k count_sort 2 [1/5, 1/2, 3/5, 1/10])
   \<and> length (top_k count_sort 2 [1/5, 1/2, 3/5, 1/10]) = 2"
proof -
  have s: "sorts count_sort [1/5, 1/2, 3/5, 1/10]"
    by (simp add: sorts_def)
  have e: "top_k count_sort 2 [1/5, 1/2, 3/5, 1/10] = [2, 1]"
    by (simp add: top_k_def last_k_def argsort_def)
  show ?thesis using C3_amended[OF s, of 2] s e by simp
qed

text \<open>Two equal entries: class 1 is listed before class 0, in the top 5 and the top 3.\<close>

theorem C3_counterexample:
  "top5 count_sort [1/2, 1/2] = [1, 0] \<and> top_k count_sort 3 [1/2, 1/2] = [1, 0]
   \<and> precedes (top5 count_sort [1/2, 1/2]) 1 0
   \<and> \<not> precedes (top5 count_sort [1/2, 1/2]) 0 1"
  by (simp add: top5_def top_k_def last_k_def argsort_def)

text \<open>
  Claim C4, as the code has it. Let the vector have no negative entry, the boost be
  above zero, class \<open>i\<close> match the preferred substring and class \<open>j\<close> not match it.
  After the boost stage \<open>i\<close> stands before \<open>j\<close> when the probability of \<open>j\<close> is below
  that of \<open>i\<close> times \<open>1 + boost\<close>, and behind \<open>j\<close> when it is above. So a matching class
  of positive probability keeps behind it every class it stood before, and it passes
  the classes before it whose probability its boosted value exceeds; where all the
  classes before it are above its boosted value, its rank stays what it was.
\<close>

theorem C4_amended:
  assumes "0 < boost" and "p \<noteq> []"
    and "\<forall>x \<in> set out. 0 \<le> x"
    and "boost_stage (Some p) boost classes out = Inr v"
    and "i < length out" and "j < length out"
    and "is_preferred p classes i" and "\<not> is_preferred p classes j"
    and "sorts introsort out" and "sorts introsort v"
  shows "(0 < out ! i \<and> precedes (ranking introsort out) i j
            \<longrightarrow> precedes (ranking introsort v) i j)
       \<and> (out ! j < out ! i * (1 + boost) \<longrightarrow> precedes (ranking introsort v) i j)
       \<and> (out ! i * (1 + boost) < out ! j \<longrightarrow> precedes (ranking introsort v) j i)"
proof -
  have ne: "out \<noteq> []" using assms(5) by auto
  obtain w where len: "length v = length out" and s0: "sum_list w \<noteq> 0"
    and lw: "length w = length out"
    and wn: "\<And>j. j < length out \<Longrightarrow>
           w ! j = (if is_preferred p classes j then out ! j * (1 + boost) else out ! j)"
    and vn: "\<And>j. j < length out \<Longrightarrow> v ! j = w ! j / sum_list w"
    using boost_stage_values[OF assms(4,2) ne] by metis
  have nn: "\<And>k. k < length out \<Longrightarrow> 0 \<le> out ! k" using assms(3) by simp
  have wnn: "\<forall>x \<in> set w. 0 \<le> x"
  proof (clarsimp simp: in_set_conv_nth)
    fix k assume "k < length w"
    then show "0 \<le> w ! k" using wn[of k] nn[of k] lw assms(1) by (auto intro: mult_nonneg_nonneg)
  qed
  have spos: "0 < sum_list w" using s0 sum_list_nonneg[of w] wnn by fastforce
  have wi: "w ! i = out ! i * (1 + boost)" and wj: "w ! j = out ! j"
    using wn assms(5-8) by simp_all
  have up: "precedes (ranking introsort v) i j" if "out ! j < out ! i * (1 + boost)"
  proof -
    have "v ! j < v ! i"
      using that vn[OF assms(5)] vn[OF assms(6)] wi wj spos
      by (simp add: divide_strict_right_mono)
    then show ?thesis
      using assms(5,6) len by (intro precedes_ranking_strict[OF assms(10)]) simp_all
  qed
  have down: "precedes (ranking introsort v) j i" if "out ! i * (1 + boost) < out ! j"
  proof -
    have "v ! i < v ! j"
      using that vn[OF assms(5)] vn[OF assms(6)] wi wj spos
      by (simp add: divide_strict_right_mono)
    then show ?thesis
      using assms(5,6) len by (intro precedes_ranking_strict[OF assms(10)]) simp_all
  qed
  have keep: "precedes (ranking introsort v) i j"
    if "0 < out ! i" and "precedes (ranking introsort out) i j"
  proof -
    have "out ! j \<le> out ! i" using precedes_ranking_ge[OF assms(9) that(2)] .
    moreover have "out ! i < out ! i * (1 + boost)" using that(1) assms(1) by simp
    ultimately show ?thesis using up by simp
  qed
  show ?thesis using up down keep by blast
qed

text \<open>
  Instances of the theorem. On \<open>[0.5, 0.4, 0.1]\<close> with boost 0.5 the class cactus, second
  before the boost, passes rose and stays before fern; on \<open>[0.7, 0.2, 0.1]\<close> it stays
  behind rose.
\<close>

theorem C4_witness:
  "boost_stage (Some ''cactus'') (1/2) [''rose'', ''cactus'', ''fern''] [1/2, 2/5, 1/10]
     = Inr [5/12, 1/2, 1/12]
   \<and> precedes (ranking count_sort [1/2, 2/5, 1/10]) 0 1
   \<and> precedes (ranking count_sort [5/12, 1/2, 1/12]) 1 0
   \<and> precedes (ranking count_sort [1/2, 2/5, 1/10]) 1 2
   \<and> precedes (ranking count_sort [5/12, 1/2, 1/12]) 1 2
   \<and> precedes (ranking count_sort [7/11, 3/11, 1/11]) 0 1"
proof -
  let ?cl = "[''rose'', ''cactus'', ''fern'']"
  have b1: "boost_stage (Some ''cactus'') (1/2) ?cl [1/2, 2/5, 1/10] = Inr [5/12, 1/2, 1/12]"
    by (simp add: boost_stage_def apply_boost_def lower_def lower_char_def divide_by_def)
  have b2: "boost_stage (Some ''cactus'') (1/2) ?cl [7/10, 2/10, 1/10] = Inr [7/11, 3/11, 1/11]"
    by (simp add: boost_stage_def apply_boost_def lower_def lower_char_def divide_by_def)
  have p1: "is_preferred ''cactus'' ?cl 1"
    by (simp add: is_preferred_def lower_def lower_char_def)
  have p0: "\<not> is_preferred ''cactus'' ?cl 0"
    by (simp add: is_preferred_def lower_def lower_char_def)
  have p2: "\<not> is_preferred ''cactus'' ?cl 2"
    by (simp add: is_preferred_def lower_def lower_char_def)
  have r0: "precedes (ranking count_sort [1/2, 2/5, 1/10]) 0 1"
    by (simp add: ranking_def top_k_def last_k_def argsort_def)
  have r2: "precedes (ranking count_sort [1/2, 2/5, 1/10]) 1 2"
    by (simp add: ranking_def top_k_def last_k_def argsort_def)
  have s: "\<And>x. sorts count_sort x" by (rule sorts_count_sort)
  have "precedes (ranking count_sort [5/12, 1/2, 1/12]) 1 0"
    using C4_amended[OF _ _ _ b1 _ _ p1 p0 s s] by simp
  moreover have "precedes (ranking count_sort [5/12, 1/2, 1/12]) 1 2"
    using C4_amended[OF _ _ _ b1 _ _ p1 p2 s s] r2 by simp
  moreover have "precedes (ranking count_sort [7/11, 3/11, 1/11]) 0 1"
    using C4_amended[OF _ _ _ b2 _ _ p1 p0 s s] by simp
  ultimately show ?thesis using b1 r0 r2 by simp
qed

text \<open>With \<open>[0.7, 0.2, 0.1]\<close>, the substring "cactus" and boost 0.5, the boosted class is
  second before the boost and second after it.\<close>

theorem C4_counterexample:
  "boost_stage (Some ''cactus'') (1/2) [''rose'', ''cactus'', ''fern''] [7/10, 2/10, 1/10]
     = Inr [7/11, 3/11, 1/11]
   \<and> is_preferred ''cactus'' [''rose'', ''cactus'', ''fern''] 1
   \<and> \<not> is_preferred ''cactus'' [''rose'', ''cactus'', ''fern''] 0
   \<and> \<not> is_preferred ''cactus'' [''rose'', ''cactus'', ''fern''] 2
   \<and> ranking count_sort [7/10, 2/10, 1/10] = [0, 1, 2]
   \<and> ranking count_sort [7/11, 3/11, 1/11] = [0, 1, 2]"
  by (simp add: boost_stage_def apply_boost_def lower_def lower_char_def divide_by_def
      is_preferred_def ranking_def top_k_def last_k_def argsort_def)

text \<open>
  Claim C5. On \<open>[0.7, 0.2, 0.1]\<close> with the labels rose, cactus and fern at temperature 1:
  without a preferred substring the listing starts with (rose, 0.7) and the best class
  is (rose, 0.7); with the substring "cactus" and boost 0.5 the boosted vector is
  \<open>[0.7, 0.3, 0.1]\<close>, the normalised one \<open>[7/11, 3/11, 1/11]\<close>, which is
  \<open>[0.636, 0.273, 0.091]\<close> within 0.001, and the best class is still rose.
\<close>

theorem C5_example:
  "report introsort 1 None (1/4) [''rose'', ''cactus'', ''fern''] [7/10, 2/10, 1/10]
     = Inr ([(''rose'', 7/10), (''cactus'', 2/10), (''fern'', 1/10)], (''rose'', 7/10))
   \<and> apply_boost (Some ''cactus'') (1/2) [''rose'', ''cactus'', ''fern''] [7/10, 2/10, 1/10]
     = Inr [7/10, 3/10, 1/10]
   \<and> postprocess 1 (Some ''cactus'') (1/2) [''rose'', ''cactus'', ''fern''] [7/10, 2/10, 1/10]
     = Inr [7/11, 3/11, 1/11]
   \<and> \<bar>7/11 - 636/1000\<bar> \<le> (1/1000 :: real)
   \<and> \<bar>3/11 - 273/1000\<bar> \<le> (1/1000 :: real)
   \<and> \<bar>1/11 - 91/1000\<bar> \<le> (1/1000 :: real)
   \<and> report introsort 1 (Some ''cactus'') (1/2) [''rose'', ''cactus'', ''fern''] [7/10, 2/10, 1/10]
     = Inr ([(''rose'', 7/11), (''cactus'', 3/11), (''fern'', 1/11)], (''rose'', 7/11))"
  by (simp add: report_def postprocess_def boost_stage_def apply_boost_def lower_def
      lower_char_def divide_by_def top5_def top_k_def last_k_def argsort_def argmax_def)



section \<open>Lemmas on the serial exchange and the dtype branch\<close>

lemma starts_with_iff: "starts_with n s \<longleftrightarrow> (\<exists>b. s = n @ b)"
  by (induction n s rule: starts_with.induct) auto

lemma contains_iff: "contains n s \<longleftrightarrow> (\<exists>a b. s = a @ n @ b)"
proof (induction s)
  case Nil
  then show ?case by auto
next
  case (Cons c cs)
  show ?case
  proof
    assume "contains n (c # cs)"
    then consider "starts_with n (c # cs)" | "contains n cs" by auto
    then show "\<exists>a b. c # cs = a @ n @ b"
    proof cases
      case 1
      then obtain b where "c # cs = n @ b" using starts_with_iff by blast
      then have "c # cs = [] @ n @ b" by simp
      then show ?thesis by blast
    next
      case 2
      then obtain a b where "cs = a @ n @ b" using Cons.IH by blast
      then have "c # cs = (c # a) @ n @ b" by simp
      then show ?thesis by blast
    qed
  next
    assume "\<exists>a b. c # cs = a @ n @ b"
    then obtain a b where ab: "c # cs = a @ n @ b" by blast
    show "contains n (c # cs)"
    proof (cases a)
      case Nil
      then have "starts_with n (c # cs)" using ab starts_with_iff[of n "c # cs"] by auto
      then show ?thesis by simp
    next
      case (Cons a0 as)
      then have "cs = as @ n @ b" using ab by simp
      then have "contains n cs" using Cons.IH by blast
      then show ?thesis by simp
    qed
  qed
qed

lemma contains_rev: "contains (rev n) (rev s) = contains n s"
proof -
  have "(\<exists>a b. rev s = a @ rev n @ b) \<longleftrightarrow> (\<exists>a b. s = a @ n @ b)"
  proof
    assume "\<exists>a b. rev s = a @ rev n @ b"
    then obtain a b where "rev s = a @ rev n @ b" by blast
    then have "rev (rev s) = rev (a @ rev n @ b)" by simp
    then have "s = rev b @ n @ rev a" by simp
    then show "\<exists>a b. s = a @ n @ b" by blast
  next
    assume "\<exists>a b. s = a @ n @ b"
    then obtain a b where "s = a @ n @ b" by blast
    then have "rev s = rev b @ rev n @ rev a" by simp
    then show "\<exists>a b. rev s = a @ rev n @ b" by blast
  qed
  then show ?thesis by (simp add: contains_iff)
qed

lemma contains_dropWhile:
  assumes "n \<noteq> []" and "\<not> P (hd n)"
  shows "contains n (dropWhile P s) = contains n s"
proof (induction s)
  case Nil
  then show ?case by simp
next
  case (Cons c cs)
  show ?case
  proof (cases "P c")
    case True
    have "\<not> starts_with n (c # cs)"
      using assms True by (cases n) auto
    then show ?thesis using True Cons.IH by simp
  next
    case False
    then show ?thesis by simp
  qed
qed

lemma contains_strip:
  assumes "n \<noteq> []" and "\<not> isspace (hd n)" and "\<not> isspace (last n)"
  shows "contains n (strip t) = contains n t"
proof -
  have r: "rev n \<noteq> []" "\<not> isspace (hd (rev n))"
    using assms by (simp_all add: hd_rev)
  have "contains n (strip t) = contains (rev n) (dropWhile isspace (rev (dropWhile isspace t)))"
    unfolding strip_def using contains_rev[of "rev n"] by simp
  also have "\<dots> = contains (rev n) (rev (dropWhile isspace t))"
    using contains_dropWhile[of "rev n" isspace] r by blast
  also have "\<dots> = contains n (dropWhile isspace t)" by (rule contains_rev)
  also have "\<dots> = contains n t" using contains_dropWhile[of n isspace] assms(1,2) by blast
  finally show ?thesis .
qed

lemma ACK_props: "ACK_PUMP_DONE \<noteq> []" "\<not> isspace (hd ACK_PUMP_DONE)" "\<not> isspace (last ACK_PUMP_DONE)"
  by (simp_all add: ACK_PUMP_DONE_def isspace_def)

lemma contains_ACK_strip: "contains ACK_PUMP_DONE (strip t) = contains ACK_PUMP_DONE t"
  by (rule contains_strip[OF ACK_props])

lemma utf8_decode_Nil: "utf8_decode h [] = Inr []"
  by (simp add: utf8_decode.simps)

lemma utf8_decode_Cons:
  "utf8_decode h (b # rest) =
     (case utf8_step (b # rest) of
        (Some cp, n) \<Rightarrow> emit cp (utf8_decode h (drop n (b # rest)))
      | (None, n) \<Rightarrow> on_error h (utf8_decode h (drop n (b # rest))))"
  by (subst utf8_decode.simps) simp

lemma emit_Inr: "emit cp (Inr t) = Inr (cp # t)"
  by (simp add: emit_def)

lemma utf8_decode_Ignore_total: "\<exists>t. utf8_decode Ignore bs = Inr t"
proof (induction Ignore bs rule: utf8_decode.induct)
  case (1 bs)
  show ?case
  proof (cases "bs = []")
    case True
    then show ?thesis by (simp add: utf8_decode_Nil)
  next
    case False
    obtain r n where st: "utf8_step bs = (r, n)" by (cases "utf8_step bs")
    show ?thesis
    proof (cases r)
      case None
      obtain t where "utf8_decode Ignore (drop n bs) = Inr t"
        using 1(1)[OF False st[symmetric] None] by auto
      then show ?thesis using False st None by (subst utf8_decode.simps) simp
    next
      case (Some cp)
      obtain t where "utf8_decode Ignore (drop n bs) = Inr t"
        using 1(2)[OF False st[symmetric] Some] by auto
      then show ?thesis using False st Some by (subst utf8_decode.simps) (simp add: emit_Inr)
    qed
  qed
qed

lemma decode_Ignore_total: "\<exists>t. decode Ignore bs = Inr t"
  by (simp add: decode_def utf8_decode_Ignore_total)






lemma strip_all_space:
  assumes "\<forall>c \<in> set t. isspace c"
  shows "strip t = []"
proof -
  have d: "dropWhile isspace t = []" using assms by simp
  show ?thesis unfolding strip_def d by simp
qed

lemma script_preprocess_unsupported:
  "dt \<noteq> Float32 \<Longrightarrow> dt \<noteq> UInt8 \<Longrightarrow> script_preprocess dt a = Inl UnsupportedDtype"
  by (simp add: script_preprocess_def)

lemma script_infer_unsupported:
  "1 < length (input_shape m) \<Longrightarrow> input_dtype m \<noteq> Float32 \<Longrightarrow> input_dtype m \<noteq> UInt8
   \<Longrightarrow> script_infer m picture = Inl UnsupportedDtype"
  by (simp add: script_infer_def script_preprocess_def Let_def)

section \<open>The claims on inference and the serial exchange\<close>

text \<open>
  Claim C6, as the code has it. On an open port, whatever bytes arrived, the reply text (decoded and
  stripped) decides the answer of \<^verbatim>\<open>/water\<close> in this order: it contains
  \<^verbatim>\<open>ACK:PUMP_DONE\<close>, and the answer is "Watering complete!" (acknowledged); otherwise it
  is not empty, and the answer is the reply itself (unrecognized reply); otherwise the
  answer is "Done (no serial response)." (silence). Stripping does not change whether
  the marker is found.
\<close>

theorem C6_water_outcome:
  assumes "is_open port"
  shows "\<exists>decoded. decode Ignore arrived = Inr decoded
           \<and> water (Some port) arrived =
               Inr (if contains ACK_PUMP_DONE (strip decoded) then WateringComplete
                    else if strip decoded \<noteq> [] then WaterReply (strip decoded)
                    else DoneNoSerialResponse)
           \<and> contains ACK_PUMP_DONE (strip decoded) = contains ACK_PUMP_DONE decoded"
proof -
  obtain t where t: "decode Ignore arrived = Inr t" using decode_Ignore_total by blast
  have "water (Some port) arrived =
          Inr (if contains ACK_PUMP_DONE (strip t) then WateringComplete
               else if strip t \<noteq> [] then WaterReply (strip t)
               else DoneNoSerialResponse)"
    using assms t by (simp add: water_def Let_def)
  then show ?thesis using t contains_ACK_strip by blast
qed

text \<open>An instance of the theorem.\<close>

theorem C6_witness:
  "is_open \<lparr>is_open = True\<rparr>
   \<and> water (Some \<lparr>is_open = True\<rparr>) [0x41, 0x43, 0x4B, 0x3A, 0x50, 0x55, 0x4D, 0x50, 0x5F,
        0x44, 0x4F, 0x4E, 0x45, 0x0D, 0x0A] = Inr WateringComplete
   \<and> water (Some \<lparr>is_open = True\<rparr>) [0x3F, 0x0A] = Inr (WaterReply [63])
   \<and> water (Some \<lparr>is_open = True\<rparr>) [] = Inr DoneNoSerialResponse"
proof -
  have d1: "decode Ignore [0x41, 0x43, 0x4B, 0x3A, 0x50, 0x55, 0x4D, 0x50, 0x5F,
        0x44, 0x4F, 0x4E, 0x45, 0x0D, 0x0A] =
      Inr [65, 67, 75, 58, 80, 85, 77, 80, 95, 68, 79, 78, 69, 13, 10]"
    by (simp add: decode_def utf8_decode_Nil utf8_decode_Cons emit_def)
  have d2: "decode Ignore [0x3F, 0x0A] = Inr [63, 10]"
    by (simp add: decode_def utf8_decode_Nil utf8_decode_Cons emit_def)
  have d3: "decode Ignore [] = Inr []"
    by (simp add: decode_def utf8_decode_Nil)
  have o: "is_open \<lparr>is_open = True\<rparr>" by simp
  show ?thesis
    using C6_water_outcome[OF o, of "[0x41, 0x43, 0x4B, 0x3A, 0x50, 0x55, 0x4D, 0x50, 0x5F,
        0x44, 0x4F, 0x4E, 0x45, 0x0D, 0x0A]"]
      C6_water_outcome[OF o, of "[0x3F, 0x0A]"] C6_water_outcome[OF o, of "[]"]
    by (simp add: d1 d2 d3 strip_def isspace_def ACK_PUMP_DONE_def)
qed

text \<open>A reply of a carriage return and a line feed decodes to a text that is not empty
  and holds no marker; it is stripped to nothing and the answer is the one of silence.\<close>

theorem C6_counterexample:
  "decode Ignore [0x0D, 0x0A] = Inr [13, 10]
   \<and> [13, 10] \<noteq> ([] :: nat list)
   \<and> \<not> contains ACK_PUMP_DONE [13, 10]
   \<and> water (Some \<lparr>is_open = True\<rparr>) [0x0D, 0x0A] = Inr DoneNoSerialResponse"
  by (simp add: water_def decode_def utf8_decode_Nil utf8_decode_Cons emit_def
      strip_def isspace_def ACK_PUMP_DONE_def)

text \<open>
  Claim C7 at a model whose input tensor is int8. The script raises the unsupported
  dtype error; the bot takes the float path for the same model, and what fails is
  \<^verbatim>\<open>set_tensor\<close> on the float32 array.
\<close>

theorem C7_dtype_branch_divergence:
  "script_infer \<lparr>input_shape = [1, 224, 224, 3], input_dtype = Int8,
                 output_tensor = [1/10, 7/10, 2/10]\<rparr> \<lparr>width = 1296, height = 972\<rparr>
     = Inl UnsupportedDtype
   \<and> bot_preprocess Int8 (np_array (resize (IMG_SIZE, IMG_SIZE) \<lparr>width = 1296, height = 972\<rparr>))
     = \<lparr>shape = [1, 224, 224, 3], dtype = Float32\<rparr>
   \<and> classify_image count_sort \<lparr>input_shape = [1, 224, 224, 3], input_dtype = Int8,
                     output_tensor = [1/10, 7/10, 2/10]\<rparr> [''rose'', ''cactus'', ''fern'']
        \<lparr>width = 1296, height = 972\<rparr>
     = Inl SetTensorError"
  by (simp add: script_infer_def script_preprocess_def bot_preprocess_def classify_image_def
      np_array_def resize_def expand_as_def set_tensor_def IMG_SIZE_def Let_def)

text \<open>
  Claim C8, as the code has it. Both programs resize the picture to the size they
  expect before the tensor is built, so the result does not depend on the size of the
  picture. When the tensor built, \<open>[1, S, S, 3]\<close>, is not of the shape the model
  declares, \<^verbatim>\<open>set_tensor\<close> fails and nothing is returned: \<open>S\<close> is 224 in the bot and
  the second entry of the declared shape in the script.
\<close>

theorem C8_amended:
  "classify_image introsort m classes picture = classify_image introsort m classes picture'
   \<and> script_infer m picture = script_infer m picture'
   \<and> (input_shape m \<noteq> [1, IMG_SIZE, IMG_SIZE, 3]
        \<longrightarrow> classify_image introsort m classes picture = Inl SetTensorError)
   \<and> (1 < length (input_shape m) \<and> (input_dtype m = UInt8 \<or> input_dtype m = Float32)
        \<and> input_shape m \<noteq> [1, input_shape m ! 1, input_shape m ! 1, 3]
        \<longrightarrow> script_infer m picture = Inl SetTensorError)"
  by (auto simp: classify_image_def script_infer_def script_preprocess_def bot_preprocess_def
      np_array_def resize_def expand_as_def set_tensor_def Let_def)

text \<open>An instance of the theorem.\<close>

theorem C8_witness:
  "classify_image count_sort \<lparr>input_shape = [1, 192, 192, 3], input_dtype = UInt8,
                   output_tensor = [1/10, 7/10, 2/10]\<rparr> [''rose'', ''cactus'', ''fern'']
     \<lparr>width = 192, height = 192\<rparr> = Inl SetTensorError
   \<and> script_infer \<lparr>input_shape = [1, 224, 192, 3], input_dtype = UInt8,
                   output_tensor = [1/10, 7/10, 2/10]\<rparr> \<lparr>width = 224, height = 192\<rparr>
     = Inl SetTensorError"
  using C8_amended[of count_sort "\<lparr>input_shape = [1, 192, 192, 3], input_dtype = UInt8,
                   output_tensor = [1/10, 7/10, 2/10]\<rparr>" "[''rose'', ''cactus'', ''fern'']"
                   "\<lparr>width = 192, height = 192\<rparr>"]
    C8_amended[of _ "\<lparr>input_shape = [1, 224, 192, 3], input_dtype = UInt8,
                   output_tensor = [1/10, 7/10, 2/10]\<rparr>" _ "\<lparr>width = 224, height = 192\<rparr>"]
  by (simp add: IMG_SIZE_def)

text \<open>A picture of 1296 by 972 pixels and a model for 224 by 224: no failure.\<close>

theorem C8_counterexample:
  "classify_image count_sort \<lparr>input_shape = [1, 224, 224, 3], input_dtype = UInt8,
                   output_tensor = [1/10, 7/10, 2/10]\<rparr> [''rose'', ''cactus'', ''fern'']
     \<lparr>width = 1296, height = 972\<rparr>
     = Inr [(''cactus'', 7/10), (''fern'', 2/10), (''rose'', 1/10)]
   \<and> script_infer \<lparr>input_shape = [1, 224, 224, 3], input_dtype = UInt8,
                   output_tensor = [1/10, 7/10, 2/10]\<rparr> \<lparr>width = 1296, height = 972\<rparr>
     = Inr [1/10, 7/10, 2/10]"
  by (simp add: classify_image_def script_infer_def script_preprocess_def bot_preprocess_def
      np_array_def resize_def expand_as_def set_tensor_def IMG_SIZE_def Let_def
      top_k_def last_k_def argsort_def)




text \<open>
  Claim C10. On an open port, when the decoded reply holds white space only,
  \<^verbatim>\<open>/water\<close> answers "Done (no serial response)." and \<^verbatim>\<open>/status\<close> answers
  "No response from Arduino.".
\<close>

theorem C10_whitespace_is_silence:
  assumes "is_open port" and "decode Ignore arrived = Inr decoded"
    and "\<forall>c \<in> set decoded. isspace c"
  shows "water (Some port) arrived = Inr DoneNoSerialResponse
       \<and> status (Some port) arrived = Inr NoResponseFromArduino"
  using assms(1,2) strip_all_space[OF assms(3)]
  by (simp add: water_def status_def ACK_PUMP_DONE_def)

text \<open>An instance of the theorem.\<close>

theorem C10_witness:
  "decode Ignore [0x20, 0x0D, 0x0A] = Inr [32, 13, 10]
   \<and> water (Some \<lparr>is_open = True\<rparr>) [0x20, 0x0D, 0x0A] = Inr DoneNoSerialResponse
   \<and> status (Some \<lparr>is_open = True\<rparr>) [0x20, 0x0D, 0x0A] = Inr NoResponseFromArduino"
proof -
  have d: "decode Ignore [0x20, 0x0D, 0x0A] = Inr [32, 13, 10]"
    by (simp add: decode_def utf8_decode_Nil utf8_decode_Cons emit_def)
  have w: "\<forall>c \<in> set [32, 13, 10 :: nat]. isspace c"
    by (simp add: isspace_def)
  have o: "is_open \<lparr>is_open = True\<rparr>" by simp
  show ?thesis using C10_whitespace_is_silence[OF o d w] d by simp
qed


end
